theory Spec2Isabelle
  imports Main "HOL-Library.AList" "HOL-Library.Sublist" "HOL-Library.Word"
begin

section \<open>Data model of Main.py\<close>

text \<open>
  Python exceptions are values of \<open>error\<close>; a function that may raise returns
  \<open>error + 'a\<close>. A \<open>Node\<close> object has the four attributes of the class, and \<open>None\<close> in
  an attribute is \<open>None\<close> of the option type. A dict is an association list in insertion
  order (the order in which \<open>items()\<close> iterates); \<open>d[k] = v\<close> is \<open>AList.update k v d\<close>,
  which overwrites in place or appends at the end. Bit strings are Python strings over
  the characters 0 and 1, as in the source.
\<close>

datatype error = IndexError | KeyError | TypeError | AttributeError | ValueError

datatype 'a node =
  Node (symbol: "'a option") (weight: int) (left: "'a node option") (right: "'a node option")

type_synonym 'a code_table = "('a option \<times> string) list"

record 'a huffman_tree =
  root :: "'a node option"
  code_table :: "'a code_table"

section \<open>HuffmanTree\<close>

text \<open>
  \<open>build_tree\<close>, first loop: \<open>if symbol not in symbol_counts: symbol_counts[symbol] = 0\<close>
  and then \<open>symbol_counts[symbol] += 1\<close>.
\<close>

definition count_symbol :: "'a \<Rightarrow> ('a \<times> int) list \<Rightarrow> ('a \<times> int) list" where
  "count_symbol symb counts =
     (let counts1 = (if map_of counts symb = None then AList.update symb 0 counts else counts)
      in case map_of counts1 symb of
           None \<Rightarrow> counts1
         | Some c \<Rightarrow> AList.update symb (c + 1) counts1)"

definition symbol_counts :: "'a list \<Rightarrow> ('a \<times> int) list" where
  "symbol_counts symbols = foldl (\<lambda>counts symb. count_symbol symb counts) [] symbols"

text \<open>Second loop: one \<open>Node(symbol, count)\<close> per item of the dict.\<close>

definition leaf_nodes :: "('a \<times> int) list \<Rightarrow> 'a node list" where
  "leaf_nodes counts = map (\<lambda>(symb, count). Node (Some symb) count None None) counts"

text \<open>
  The \<open>while len(nodes) > 1\<close> loop: two \<open>pop(0)\<close>, a parent \<open>Node(None, sum)\<close> with the
  two as children, \<open>append\<close>.
\<close>

fun merge_nodes :: "'a node list \<Rightarrow> 'a node list" where
  "merge_nodes (l # r # nodes) =
     merge_nodes (nodes @ [Node None (weight l + weight r) (Some l) (Some r)])"
| "merge_nodes nodes = nodes"

text \<open>\<open>self.root = nodes[0]\<close> raises IndexError on the empty list.\<close>

definition build_tree :: "'a list \<Rightarrow> 'a huffman_tree \<Rightarrow> error + 'a huffman_tree" where
  "build_tree symbols self =
     (case merge_nodes (leaf_nodes (symbol_counts symbols)) of
        [] \<Rightarrow> Inl IndexError
      | n # _ \<Rightarrow> Inr (self\<lparr>root := Some n\<rparr>))"

text \<open>
  \<open>_generate_code_table(node, prefix)\<close>, threading \<open>self.code_table\<close>. A \<open>Node\<close> object is
  always truthy, so \<open>not node.left\<close> tests for \<open>None\<close>.
\<close>

fun generate_codes :: "'a node \<Rightarrow> string \<Rightarrow> 'a code_table \<Rightarrow> 'a code_table" where
  "generate_codes (Node symb w l r) pfx table =
     (if l = None \<and> r = None then AList.update symb pfx table
      else
        let table1 = (case l of None \<Rightarrow> table
                      | Some ln \<Rightarrow> generate_codes ln (pfx @ ''0'') table)
        in case r of None \<Rightarrow> table1
           | Some rn \<Rightarrow> generate_codes rn (pfx @ ''1'') table1)"

text \<open>
  \<open>generate_code_table\<close>: the table is reset, then filled from the root. With no root,
  \<open>node.left\<close> on \<open>None\<close> raises AttributeError.
\<close>

definition generate_code_table :: "'a huffman_tree \<Rightarrow> error + 'a huffman_tree" where
  "generate_code_table self =
     (case root self of
        None \<Rightarrow> Inl AttributeError
      | Some n \<Rightarrow> Inr (self\<lparr>code_table := generate_codes n '''' []\<rparr>))"

text \<open>\<open>encode\<close>: \<open>self.code_table[symbol]\<close> raises KeyError on a missing key.\<close>

fun encode_loop :: "'a code_table \<Rightarrow> 'a list \<Rightarrow> string \<Rightarrow> error + string" where
  "encode_loop table [] encoded_symbols = Inr encoded_symbols"
| "encode_loop table (symb # symbols) encoded_symbols =
     (case map_of table (Some symb) of
        None \<Rightarrow> Inl KeyError
      | Some encoded_symbol \<Rightarrow> encode_loop table symbols (encoded_symbols @ encoded_symbol))"

definition encode :: "'a huffman_tree \<Rightarrow> 'a list \<Rightarrow> error + string" where
  "encode self symbols = encode_loop (code_table self) symbols ''''"

section \<open>Encoding\<close>

definition adaptive_huffman_encoding :: "'a list \<Rightarrow> error + (string \<times> 'a code_table)" where
  "adaptive_huffman_encoding text =
     (case build_tree text \<lparr>root = None, code_table = []\<rparr> of
        Inl e \<Rightarrow> Inl e
      | Inr tree1 \<Rightarrow>
          (case generate_code_table tree1 of
             Inl e \<Rightarrow> Inl e
           | Inr tree2 \<Rightarrow>
               (case encode tree2 text of
                  Inl e \<Rightarrow> Inl e
                | Inr encoded_text \<Rightarrow> Inr (encoded_text, code_table tree2))))"

text \<open>
  \<open>decode\<close>. The body of the \<open>while\<close> is one \<open>for\<close> over all items of the table, with no
  \<open>break\<close>: every item is tried in turn against what is left of the message at that moment.
  \<open>decoded_message += character\<close> raises TypeError when the key is \<open>None\<close>.
\<close>

fun scan_table :: "'a code_table \<Rightarrow> string \<Rightarrow> 'a list \<Rightarrow> error + (string \<times> 'a list)" where
  "scan_table [] encoded_message decoded_message = Inr (encoded_message, decoded_message)"
| "scan_table ((character, code) # items) encoded_message decoded_message =
     (if prefix code encoded_message then
        (case character of
           None \<Rightarrow> Inl TypeError
         | Some c \<Rightarrow>
             scan_table items (drop (length code) encoded_message) (decoded_message @ [c]))
      else scan_table items encoded_message decoded_message)"

text \<open>
  The \<open>while encoded_message\<close> loop has no bound on its iterations, so it is a partial
  function: \<open>None\<close> is the loop that never ends.
\<close>

partial_function (option) decode_loop ::
  "'a code_table \<Rightarrow> string \<Rightarrow> 'a list \<Rightarrow> (error + 'a list) option" where
  "decode_loop table encoded_message decoded_message =
     (if encoded_message = [] then Some (Inr decoded_message)
      else case scan_table table encoded_message decoded_message of
             Inl e \<Rightarrow> Some (Inl e)
           | Inr (encoded_message1, decoded_message1) \<Rightarrow>
               decode_loop table encoded_message1 decoded_message1)"

definition decode :: "string \<Rightarrow> 'a code_table \<Rightarrow> (error + 'a list) option" where
  "decode encoded_message table = decode_loop table encoded_message []"

section \<open>Compresion\<close>

text \<open>
  \<open>bitarray([int(i) & 1 for i in encoded_text])\<close> and \<open>bits.to01()\<close>. \<open>int(i)\<close> of a
  one-character string is its digit value, and raises ValueError on a character that is
  no digit.
\<close>

fun bit_of_char :: "char \<Rightarrow> error + bool" where
  "bit_of_char c =
     (if (48::nat) \<le> of_char c \<and> of_char c \<le> (57::nat)
      then Inr (odd (of_char c - (48::nat)))
      else Inl ValueError)"

fun bitarray :: "string \<Rightarrow> error + bool list" where
  "bitarray [] = Inr []"
| "bitarray (i # encoded_text) =
     (case bit_of_char i of
        Inl e \<Rightarrow> Inl e
      | Inr b \<Rightarrow>
          (case bitarray encoded_text of Inl e \<Rightarrow> Inl e | Inr bs \<Rightarrow> Inr (b # bs)))"

definition to01 :: "bool list \<Rightarrow> string" where
  "to01 bits = map (\<lambda>b. if b then CHR ''1'' else CHR ''0'') bits"

text \<open>
  \<open>compress_text\<close> and \<open>decompress_text\<close> between the two file accesses: the text read
  from the file goes in, the tuple that is pickled comes out (and back).
\<close>

definition compress_text :: "'a list \<Rightarrow> error + ('a code_table \<times> bool list)" where
  "compress_text text =
     (case adaptive_huffman_encoding text of
        Inl e \<Rightarrow> Inl e
      | Inr (encoded_text, tree_code_table) \<Rightarrow>
          (case bitarray encoded_text of
             Inl e \<Rightarrow> Inl e
           | Inr bits \<Rightarrow> Inr (tree_code_table, bits)))"

definition decompress_text :: "'a code_table \<times> bool list \<Rightarrow> (error + 'a list) option" where
  "decompress_text c = (case c of (tree_code_table, bits) \<Rightarrow> decode (to01 bits) tree_code_table)"

subsection \<open>Images\<close>

text \<open>
  \<open>compress_image\<close> after \<open>ImagesToTxt.image_to_text\<close> (not part of this file), which
  yields \<open>width, height, channels, binarios\<close>; \<open>binarios\<close> is a sequence of bytes. A
  character is its code point. \<open>format(byte, '08b')\<close> is the eight binary digits of the
  byte, most significant first; \<open>int(s, 2)\<close> is read here for strings of binary digits
  only (no other string reaches it) and raises ValueError on the empty string;
  \<open>chr\<close> raises ValueError from 0x110000 on.
\<close>

type_synonym byte = "8 word"

definition format_08b :: "byte \<Rightarrow> string" where
  "format_08b b = map (\<lambda>i. if bit b i then CHR ''1'' else CHR ''0'') [7, 6, 5, 4, 3, 2, 1, 0]"

definition int_base2 :: "string \<Rightarrow> error + nat" where
  "int_base2 s =
     (if s \<noteq> [] \<and> set s \<subseteq> {CHR ''0'', CHR ''1''}
      then Inr (foldl (\<lambda>acc c. 2 * acc + (if c = CHR ''1'' then 1 else 0)) 0 s)
      else Inl ValueError)"

definition chr :: "nat \<Rightarrow> error + nat" where
  "chr k = (if k < 1114112 then Inr k else Inl ValueError)"

text \<open>\<open>paddinf = 7 - len(cadena_bits) % 7 if len(cadena_bits) % 7 != 0 else 0\<close>\<close>

definition paddinf_of :: "string \<Rightarrow> nat" where
  "paddinf_of cadena_bits =
     (if length cadena_bits mod 7 \<noteq> 0 then 7 - length cadena_bits mod 7 else 0)"

text \<open>\<open>range(0, n, 7)\<close>\<close>

definition range7 :: "nat \<Rightarrow> nat list" where
  "range7 n = map (\<lambda>k. 7 * k) [0..<(n + 6) div 7]"

text \<open>\<open>''.join(chr(int(cadena_bits[i:i+7], 2)) for i in ...)\<close>\<close>

fun join_chars :: "string \<Rightarrow> nat list \<Rightarrow> error + nat list" where
  "join_chars cadena_bits [] = Inr []"
| "join_chars cadena_bits (i # is) =
     (case int_base2 (take 7 (drop i cadena_bits)) of
        Inl e \<Rightarrow> Inl e
      | Inr k \<Rightarrow>
          (case chr k of
             Inl e \<Rightarrow> Inl e
           | Inr c \<Rightarrow>
               (case join_chars cadena_bits is of
                  Inl e \<Rightarrow> Inl e
                | Inr cs \<Rightarrow> Inr (c # cs))))"

text \<open>
  Lines 155 to 158: the symbols handed to the encoder, and the padding. The range of
  line 158 is \<open>range(0, len(binarios), 7)\<close>, over the length of the byte sequence.
\<close>

definition image_symbols :: "byte list \<Rightarrow> error + (nat list \<times> nat)" where
  "image_symbols binarios =
     (let cadena_bits = concat (map format_08b binarios);
          paddinf = paddinf_of cadena_bits;
          cadena_bits = cadena_bits @ replicate paddinf CHR ''0''
      in case join_chars cadena_bits (range7 (length binarios)) of
           Inl e \<Rightarrow> Inl e
         | Inr symbols \<Rightarrow> Inr (symbols, paddinf))"

record image_container =
  ic_table :: "nat code_table"
  ic_bits :: "bool list"
  ic_width :: int
  ic_height :: int
  ic_channels :: int
  ic_padding :: int

definition compress_image ::
  "int \<Rightarrow> int \<Rightarrow> int \<Rightarrow> byte list \<Rightarrow> error + image_container" where
  "compress_image width height channels binarios =
     (case image_symbols binarios of
        Inl e \<Rightarrow> Inl e
      | Inr (symbols, paddinf) \<Rightarrow>
          (case adaptive_huffman_encoding symbols of
             Inl e \<Rightarrow> Inl e
           | Inr (encoded_text, tree_code_table) \<Rightarrow>
               (case bitarray encoded_text of
                  Inl e \<Rightarrow> Inl e
                | Inr bits \<Rightarrow>
                    Inr \<lparr>ic_table = tree_code_table, ic_bits = bits, ic_width = width,
                         ic_height = height, ic_channels = channels,
                         ic_padding = int paddinf\<rparr>)))"

text \<open>
  \<open>decompress_image\<close> up to \<open>decoded_text\<close> of line 201: \<open>decoded_text[:-padding]\<close> is
  applied to \<open>bits.to01()\<close>, then \<open>decode\<close> runs.
\<close>

definition decompress_image :: "image_container \<Rightarrow> (error + nat list) option" where
  "decompress_image c =
     (let decoded_text = to01 (ic_bits c);
          decoded_text = (if ic_padding c > 0
                          then take (length decoded_text - nat (ic_padding c)) decoded_text
                          else decoded_text)
      in decode decoded_text (ic_table c))"

section \<open>Definitions used in the statements\<close>

text \<open>Building the tree and deriving the table on one \<open>HuffmanTree\<close> object.\<close>

definition build_and_derive :: "'a list \<Rightarrow> 'a huffman_tree \<Rightarrow> error + 'a huffman_tree" where
  "build_and_derive symbols self =
     (case build_tree symbols self of
        Inl e \<Rightarrow> Inl e
      | Inr tree1 \<Rightarrow> generate_code_table tree1)"

text \<open>
  The construction as the specification words it. The distinct symbols in order of first
  appearance: \<open>remdups\<close> keeps the last occurrence of each element, so on the reversed
  list it keeps the first. One leaf per distinct symbol, weighted by its number of
  occurrences. One merge step: the two nodes at the front of the work list leave it, and
  an internal node with their weights added joins its back.
\<close>

definition first_appearance :: "'a list \<Rightarrow> 'a list" where
  "first_appearance symbols = rev (remdups (rev symbols))"

definition spec_leaves :: "'a list \<Rightarrow> 'a node list" where
  "spec_leaves symbols =
     map (\<lambda>x. Node (Some x) (int (count_list symbols x)) None None) (first_appearance symbols)"

inductive front_merge :: "'a node list \<Rightarrow> 'a node list \<Rightarrow> bool" where
  "front_merge (l # r # nodes) (nodes @ [Node None (weight l + weight r) (Some l) (Some r)])"

code_pred front_merge .

text \<open>No codeword of a table is a prefix of the codeword of another key.\<close>

definition prefix_free :: "'a code_table \<Rightarrow> bool" where
  "prefix_free table =
     (\<forall>p \<in> set table. \<forall>q \<in> set table. fst p \<noteq> fst q \<longrightarrow> \<not> prefix (snd p) (snd q))"

section \<open>Auxiliary definitions for the proofs\<close>

text \<open>
  The trees that \<open>build_tree\<close> produces have a symbol exactly at the leaves and two
  children at every other node. \<open>ctree\<close> is that shape, \<open>node_of\<close> embeds it into
  \<open>node\<close>, \<open>leaves\<close> lists the symbols from left to right and \<open>paths\<close> the path to each.
\<close>

datatype 'a ctree = Lf 'a int | Br int "'a ctree" "'a ctree"

fun node_of :: "'a ctree \<Rightarrow> 'a node" where
  "node_of (Lf a w) = Node (Some a) w None None"
| "node_of (Br w l r) = Node None w (Some (node_of l)) (Some (node_of r))"

fun leaves :: "'a ctree \<Rightarrow> 'a list" where
  "leaves (Lf a w) = [a]"
| "leaves (Br w l r) = leaves l @ leaves r"

fun paths :: "'a ctree \<Rightarrow> ('a \<times> string) list" where
  "paths (Lf a w) = [(a, [])]"
| "paths (Br w l r) =
     map (\<lambda>(a, p). (a, CHR ''0'' # p)) (paths l) @ map (\<lambda>(a, p). (a, CHR ''1'' # p)) (paths r)"

definition table_of :: "'a ctree \<Rightarrow> 'a code_table" where
  "table_of t = map (\<lambda>(a, p). (Some a, p)) (paths t)"

definition counts_of :: "'a list \<Rightarrow> ('a \<times> int) list" where
  "counts_of symbols = map (\<lambda>x. (x, int (count_list symbols x))) (first_appearance symbols)"

definition code_of :: "'a code_table \<Rightarrow> 'a \<Rightarrow> string" where
  "code_of table s = (case map_of table (Some s) of None \<Rightarrow> [] | Some c \<Rightarrow> c)"

section \<open>Empty input\<close>

lemma symbol_counts_Nil: "symbol_counts [] = []"
  by (simp add: symbol_counts_def)

text \<open>
  C6. Building from the empty symbol sequence fails: there is no leaf, the work list is
  empty and \<open>nodes[0]\<close> raises (IndexError is the error of the source for the empty
  input); no root is set, and the encoding and the text and image compression built on
  it fail with the same error, so nothing reaches the point where the container is
  written.
\<close>

theorem build_tree_empty_fails:
  "leaf_nodes (symbol_counts ([] :: 'a list)) = []
   \<and> build_tree ([] :: 'a list) self = Inl IndexError
   \<and> adaptive_huffman_encoding ([] :: 'a list) = Inl IndexError
   \<and> compress_text ([] :: 'a list) = Inl IndexError
   \<and> compress_image w h ch [] = Inl IndexError"
  by (simp add: symbol_counts_Nil leaf_nodes_def build_tree_def adaptive_huffman_encoding_def
      compress_text_def compress_image_def image_symbols_def paddinf_of_def range7_def)

section \<open>The tree that is built\<close>

subsection \<open>Counting\<close>

lemma first_appearance_snoc:
  "first_appearance (xs @ [x]) = (if x \<in> set xs then first_appearance xs else first_appearance xs @ [x])"
  by (simp add: first_appearance_def)

lemma set_first_appearance [simp]: "set (first_appearance xs) = set xs"
  by (simp add: first_appearance_def)

lemma distinct_first_appearance [simp]: "distinct (first_appearance xs)"
  by (simp add: first_appearance_def)

lemma first_appearance_Cons:
  "first_appearance (x # xs) = x # filter (\<lambda>y. y \<noteq> x) (first_appearance xs)"
proof (induction xs rule: rev_induct)
  case Nil
  show ?case by (simp add: first_appearance_def)
next
  case (snoc y ys)
  have "first_appearance (x # ys @ [y]) = first_appearance ((x # ys) @ [y])" by simp
  also have "\<dots> = (if y \<in> set (x # ys) then first_appearance (x # ys)
                     else first_appearance (x # ys) @ [y])"
    by (rule first_appearance_snoc)
  finally show ?case using snoc by (auto simp: first_appearance_snoc)
qed

lemma update_fresh: "k \<notin> fst ` set al \<Longrightarrow> AList.update k v al = al @ [(k, v)]"
  by (induction al) auto

lemma update_map_present:
  "x \<in> set ys \<Longrightarrow> distinct ys \<Longrightarrow>
   AList.update x v (map (\<lambda>y. (y, f y)) ys) = map (\<lambda>y. (y, if y = x then v else f y)) ys"
  by (induction ys) (auto simp: update_fresh image_iff)

lemma map_of_counts:
  "map_of (map (\<lambda>y. (y, f y)) ys) x = (if x \<in> set ys then Some (f x) else None)"
  by (induction ys) auto

lemma update_snoc_fresh:
  "k \<notin> fst ` set al \<Longrightarrow> AList.update k v (al @ [(k, u)]) = al @ [(k, v)]"
  by (induction al) auto

lemma count_symbol_counts_of: "count_symbol x (counts_of xs) = counts_of (xs @ [x])"
proof (cases "x \<in> set xs")
  case True
  then show ?thesis
    by (simp add: count_symbol_def counts_of_def map_of_counts first_appearance_snoc
        update_map_present)
next
  case False
  let ?cs = "counts_of xs"
  from False have fresh: "x \<notin> fst ` set ?cs" by (auto simp: counts_of_def)
  have none: "map_of ?cs x = None"
    using False by (simp add: counts_of_def map_of_counts)
  have some: "map_of (?cs @ [(x, 0)]) x = Some 0"
    using none by (simp add: map_add_def)
  have lhs: "count_symbol x ?cs = ?cs @ [(x, 1)]"
    using none some fresh by (simp add: count_symbol_def update_fresh update_snoc_fresh)
  have "map (\<lambda>y. (y, int (count_list (xs @ [x]) y))) (first_appearance xs)
        = map (\<lambda>y. (y, int (count_list xs y))) (first_appearance xs)"
    using False by (intro map_cong) auto
  then have rhs: "counts_of (xs @ [x]) = ?cs @ [(x, 1)]"
    using False by (simp add: counts_of_def first_appearance_snoc)
  from lhs rhs show ?thesis by simp
qed

lemma symbol_counts_eq: "symbol_counts xs = counts_of xs"
proof (induction xs rule: rev_induct)
  case Nil
  show ?case by (simp add: symbol_counts_def counts_of_def first_appearance_def)
next
  case (snoc x xs)
  then show ?case by (simp add: symbol_counts_def count_symbol_counts_of)
qed

lemma leaf_nodes_spec: "leaf_nodes (symbol_counts xs) = spec_leaves xs"
  by (simp add: symbol_counts_eq counts_of_def leaf_nodes_def spec_leaves_def)

subsection \<open>Merging\<close>

lemma front_merge_merge_nodes: "front_merge a b \<Longrightarrow> merge_nodes b = merge_nodes a"
  by (erule front_merge.cases) simp

lemma front_merge_rtrancl_merge_nodes:
  "front_merge\<^sup>*\<^sup>* a b \<Longrightarrow> merge_nodes b = merge_nodes a"
  by (induction rule: rtranclp_induct) (simp_all add: front_merge_merge_nodes)

lemma merge_nodes_single: "length nodes = 1 \<Longrightarrow> merge_nodes nodes = nodes"
  by (cases nodes rule: merge_nodes.cases) simp_all

lemma merge_nodes_reaches:
  "nodes \<noteq> [] \<Longrightarrow> front_merge\<^sup>*\<^sup>* nodes (merge_nodes nodes) \<and> length (merge_nodes nodes) = 1"
proof (induction nodes rule: merge_nodes.induct)
  case (1 l r nodes)
  let ?next = "nodes @ [Node None (weight l + weight r) (Some l) (Some r)]"
  have "front_merge (l # r # nodes) ?next" by (rule front_merge.intros)
  moreover have "front_merge\<^sup>*\<^sup>* ?next (merge_nodes ?next) \<and> length (merge_nodes ?next) = 1"
    using 1 by simp
  ultimately show ?case by (simp add: converse_rtranclp_into_rtranclp)
qed simp_all

lemma spec_leaves_nonempty: "symbols \<noteq> [] \<Longrightarrow> spec_leaves symbols \<noteq> []"
proof -
  assume "symbols \<noteq> []"
  then have "set (first_appearance symbols) \<noteq> {}" by simp
  then show ?thesis unfolding spec_leaves_def by (metis map_is_Nil_conv set_empty)
qed

text \<open>
  C4. The construction is positional. For a non-empty symbol sequence \<open>build_tree\<close> sets
  the root to the one node that is reached from the leaves (one per distinct symbol, in
  order of first appearance, weighted by its count) by merge steps that each take the two
  nodes at the front of the work list in its current order and append their parent, with
  the weights added, at the back; and a work list of one node that is reached by such
  steps is that root. Weights play no part in the choice of the nodes to merge.
\<close>

theorem build_tree_positional:
  assumes "symbols \<noteq> []"
  shows "\<exists>n. build_tree symbols self = Inr (self\<lparr>root := Some n\<rparr>)
             \<and> front_merge\<^sup>*\<^sup>* (spec_leaves symbols) [n]
             \<and> (\<forall>nodes. front_merge\<^sup>*\<^sup>* (spec_leaves symbols) nodes \<and> length nodes = 1
                   \<longrightarrow> nodes = [n])"
proof -
  let ?ls = "spec_leaves symbols"
  have ne: "?ls \<noteq> []" using assms by (rule spec_leaves_nonempty)
  from merge_nodes_reaches[OF ne]
  have reach: "front_merge\<^sup>*\<^sup>* ?ls (merge_nodes ?ls)" and len: "length (merge_nodes ?ls) = 1"
    by simp_all
  from len obtain n where n: "merge_nodes ?ls = [n]"
    by (cases "merge_nodes ?ls") auto
  have "build_tree symbols self = Inr (self\<lparr>root := Some n\<rparr>)"
    by (simp add: build_tree_def leaf_nodes_spec n)
  moreover have "front_merge\<^sup>*\<^sup>* ?ls [n]" using reach n by simp
  moreover have "nodes = [n]" if "front_merge\<^sup>*\<^sup>* ?ls nodes \<and> length nodes = 1" for nodes
  proof -
    from that have "merge_nodes nodes = merge_nodes ?ls"
      by (simp add: front_merge_rtrancl_merge_nodes)
    moreover from that have "merge_nodes nodes = nodes"
      by (simp add: merge_nodes_single)
    ultimately show ?thesis using n by simp
  qed
  ultimately show ?thesis by blast
qed

text \<open>
  On \<open>aaaabc\<close> the leaves are \<open>a\<close> (4), \<open>b\<close> (1), \<open>c\<close> (1). The first merge takes \<open>a\<close>
  and \<open>b\<close>, the two at the front, although \<open>b\<close> and \<open>c\<close> are the two lightest; the
  root is \<open>(c, (a, b))\<close>.
\<close>

lemma build_aaaabc:
  "build_tree ''aaaabc'' \<lparr>root = None, code_table = []\<rparr> =
     Inr \<lparr>root = Some (Node None 6 (Some (Node (Some CHR ''c'') 1 None None))
                     (Some (Node None 5 (Some (Node (Some CHR ''a'') 4 None None))
                                        (Some (Node (Some CHR ''b'') 1 None None))))),
          code_table = []\<rparr>"
  by (simp add: build_tree_def symbol_counts_def count_symbol_def leaf_nodes_def)

theorem build_tree_positional_witness:
  "''aaaabc'' \<noteq> []
   \<and> build_tree ''aaaabc'' \<lparr>root = None, code_table = []\<rparr> =
     Inr \<lparr>root = Some (Node None 6 (Some (Node (Some CHR ''c'') 1 None None))
                     (Some (Node None 5 (Some (Node (Some CHR ''a'') 4 None None))
                                        (Some (Node (Some CHR ''b'') 1 None None))))),
          code_table = []\<rparr>
   \<and> front_merge\<^sup>*\<^sup>* (spec_leaves ''aaaabc'')
        [Node None 6 (Some (Node (Some CHR ''c'') 1 None None))
                     (Some (Node None 5 (Some (Node (Some CHR ''a'') 4 None None))
                                        (Some (Node (Some CHR ''b'') 1 None None))))]"
proof -
  have ne: "''aaaabc'' \<noteq> []" by simp
  from build_tree_positional[OF ne, of "\<lparr>root = None, code_table = []\<rparr>"]
  obtain n where
    b: "build_tree ''aaaabc'' \<lparr>root = None, code_table = []\<rparr>
          = Inr (\<lparr>root = None, code_table = []\<rparr>\<lparr>root := Some n\<rparr>)"
    and r: "front_merge\<^sup>*\<^sup>* (spec_leaves ''aaaabc'') [n]"
    by blast
  from b have "n = Node None 6 (Some (Node (Some CHR ''c'') 1 None None))
                     (Some (Node None 5 (Some (Node (Some CHR ''a'') 4 None None))
                                        (Some (Node (Some CHR ''b'') 1 None None))))"
    by (simp add: build_aaaabc)
  with r show ?thesis by (simp add: build_aaaabc)
qed

subsection \<open>Shape of the built tree\<close>

lemma spec_leaves_ctree:
  "spec_leaves symbols = map node_of (map (\<lambda>x. Lf x (int (count_list symbols x))) (first_appearance symbols))"
  by (simp add: spec_leaves_def)

lemma merge_nodes_ctree:
  "ts \<noteq> [] \<Longrightarrow>
   \<exists>t. merge_nodes (map node_of ts) = [node_of t]
       \<and> set (leaves t) = set (concat (map leaves ts))
       \<and> (distinct (concat (map leaves ts)) \<longrightarrow> distinct (leaves t))
       \<and> (2 \<le> length ts \<longrightarrow> (\<exists>w l r. t = Br w l r))"
proof (induction "length ts" arbitrary: ts rule: less_induct)
  case less
  show ?case
  proof (cases ts)
    case Nil
    with less.prems show ?thesis by simp
  next
    case (Cons l ts1)
    show ?thesis
    proof (cases ts1)
      case Nil
      with Cons show ?thesis by auto
    next
      case (Cons r rest)
      let ?p = "Br (weight (node_of l) + weight (node_of r)) l r"
      let ?ts' = "rest @ [?p]"
      have ts: "ts = l # r # rest" using \<open>ts = l # ts1\<close> Cons by simp
      have step: "merge_nodes (map node_of ts) = merge_nodes (map node_of ?ts')"
        by (simp add: ts)
      have "length ?ts' < length ts" by (simp add: ts)
      from less.hyps[OF this] obtain t where
        t: "merge_nodes (map node_of ?ts') = [node_of t]"
        and s: "set (leaves t) = set (concat (map leaves ?ts'))"
        and d: "distinct (concat (map leaves ?ts')) \<longrightarrow> distinct (leaves t)"
        and b: "2 \<le> length ?ts' \<longrightarrow> (\<exists>w l r. t = Br w l r)"
        by auto
      show ?thesis
      proof (cases rest)
        case Nil
        have "merge_nodes (map node_of ts) = [node_of ?p]" by (simp add: ts Nil)
        then show ?thesis by (intro exI[of _ ?p]) (auto simp: ts Nil)
      next
        case (Cons a list)
        have "merge_nodes (map node_of ts) = [node_of t]" using step t by simp
        moreover have "set (leaves t) = set (concat (map leaves ts))"
          using s by (auto simp: ts)
        moreover have "distinct (concat (map leaves ts)) \<longrightarrow> distinct (leaves t)"
        proof
          assume "distinct (concat (map leaves ts))"
          then have "distinct (concat (map leaves ?ts'))" by (auto simp: ts)
          with d show "distinct (leaves t)" by simp
        qed
        moreover have "\<exists>w l r. t = Br w l r" using b Cons by simp
        ultimately show ?thesis by blast
      qed
    qed
  qed
qed

lemma concat_leaves_initial:
  "concat (map leaves (map (\<lambda>x. Lf x (f x)) xs)) = xs"
  by (induction xs) auto

lemma card_ge2_length: "2 \<le> card (set xs) \<Longrightarrow> 2 \<le> length (first_appearance xs)"
proof -
  assume "2 \<le> card (set xs)"
  moreover have "card (set xs) = length (first_appearance xs)"
    using distinct_card[of "first_appearance xs"] by simp
  ultimately show ?thesis by simp
qed

lemma build_tree_ctree:
  assumes "symbols \<noteq> []"
  shows "\<exists>t. build_tree symbols self = Inr (self\<lparr>root := Some (node_of t)\<rparr>)
            \<and> set (leaves t) = set symbols \<and> distinct (leaves t)
            \<and> (2 \<le> card (set symbols) \<longrightarrow> (\<exists>w l r. t = Br w l r))"
proof -
  let ?ts = "map (\<lambda>x. Lf x (int (count_list symbols x))) (first_appearance symbols)"
  have ne: "?ts \<noteq> []" using assms
    by (metis map_is_Nil_conv set_empty set_first_appearance)
  from merge_nodes_ctree[OF ne] obtain t where
    t: "merge_nodes (map node_of ?ts) = [node_of t]"
    and s: "set (leaves t) = set (concat (map leaves ?ts))"
    and d: "distinct (concat (map leaves ?ts)) \<longrightarrow> distinct (leaves t)"
    and b: "2 \<le> length ?ts \<longrightarrow> (\<exists>w l r. t = Br w l r)"
    by auto
  have "build_tree symbols self = Inr (self\<lparr>root := Some (node_of t)\<rparr>)"
    using t by (simp add: build_tree_def leaf_nodes_spec spec_leaves_ctree)
  moreover have "set (leaves t) = set symbols"
    using s unfolding concat_leaves_initial by simp
  moreover have "distinct (leaves t)"
    using d unfolding concat_leaves_initial by simp
  moreover have "2 \<le> card (set symbols) \<longrightarrow> (\<exists>w l r. t = Br w l r)"
    using b card_ge2_length[of symbols] by simp
  ultimately show ?thesis by blast
qed

subsection \<open>The code table of a tree\<close>

lemma map_fst_paths: "map fst (paths t) = leaves t"
  by (induction t) (auto simp: case_prod_unfold comp_def)

lemma generate_codes_ctree:
  "distinct (map fst table @ map Some (leaves t)) \<Longrightarrow>
   generate_codes (node_of t) pfx table = table @ map (\<lambda>(a, p). (Some a, pfx @ p)) (paths t)"
proof (induction t arbitrary: pfx table)
  case (Lf a w)
  then show ?case by (simp add: update_fresh image_iff)
next
  case (Br w l r)
  let ?t1 = "table @ map (\<lambda>(a, p). (Some a, (pfx @ ''0'') @ p)) (paths l)"
  have l: "generate_codes (node_of l) (pfx @ ''0'') table = ?t1"
    using Br.prems by (intro Br.IH(1)) auto
  have "map fst ?t1 = map fst table @ map Some (leaves l)"
    by (simp add: case_prod_unfold comp_def flip: map_fst_paths)
  then have "distinct (map fst ?t1 @ map Some (leaves r))"
    using Br.prems by auto
  then have r: "generate_codes (node_of r) (pfx @ ''1'') ?t1
      = ?t1 @ map (\<lambda>(a, p). (Some a, (pfx @ ''1'') @ p)) (paths r)"
    by (rule Br.IH(2))
  have "generate_codes (node_of (Br w l r)) pfx table
        = generate_codes (node_of r) (pfx @ ''1'') (generate_codes (node_of l) (pfx @ ''0'') table)"
    by simp
  also have "\<dots> = ?t1 @ map (\<lambda>(a, p). (Some a, (pfx @ ''1'') @ p)) (paths r)"
    by (simp only: l r)
  finally show ?case
    by (simp add: case_prod_unfold comp_def)
qed

lemma paths_prefix_free:
  "distinct (leaves t) \<Longrightarrow> (a, p) \<in> set (paths t) \<Longrightarrow> (b, q) \<in> set (paths t) \<Longrightarrow>
   prefix p q \<Longrightarrow> a = b"
proof (induction t arbitrary: p q)
  case (Lf x w)
  then show ?case by simp
next
  case (Br w l r)
  have fl: "a \<in> set (leaves l)" if "(a, p) \<in> set (paths l)" for a p
    using that by (metis map_fst_paths fst_conv image_eqI set_map)
  have fr: "a \<in> set (leaves r)" if "(a, p) \<in> set (paths r)" for a p
    using that by (metis map_fst_paths fst_conv image_eqI set_map)
  from Br.prems show ?case
    by (auto dest: Br.IH)
qed

lemma paths_nonempty: "(a, p) \<in> set (paths (Br w l r)) \<Longrightarrow> p \<noteq> []"
  by auto

lemma map_fst_table_of: "map fst (table_of t) = map Some (leaves t)"
  by (simp add: table_of_def case_prod_unfold comp_def flip: map_fst_paths)

lemma generate_code_table_ctree:
  assumes "distinct (leaves t)"
  shows "generate_code_table (self\<lparr>root := Some (node_of t)\<rparr>)
           = Inr (self\<lparr>root := Some (node_of t), code_table := table_of t\<rparr>)"
proof -
  have "distinct (map fst ([] :: 'a code_table) @ map Some (leaves t))"
    using assms by (simp add: distinct_map)
  from generate_codes_ctree[OF this, of "''''"]
  show ?thesis by (simp add: generate_code_table_def table_of_def)
qed

lemma encoding_ctree:
  assumes "symbols \<noteq> []"
  shows "\<exists>t. set (leaves t) = set symbols \<and> distinct (leaves t)
            \<and> (2 \<le> card (set symbols) \<longrightarrow> (\<exists>w l r. t = Br w l r))
            \<and> adaptive_huffman_encoding symbols =
                (case encode_loop (table_of t) symbols '''' of
                   Inl e \<Rightarrow> Inl e
                 | Inr encoded_text \<Rightarrow> Inr (encoded_text, table_of t))"
proof -
  from build_tree_ctree[OF assms, of "\<lparr>root = None, code_table = []\<rparr>"] obtain t where
    b: "build_tree symbols \<lparr>root = None, code_table = []\<rparr>
          = Inr (\<lparr>root = None, code_table = []\<rparr>\<lparr>root := Some (node_of t)\<rparr>)"
    and s: "set (leaves t) = set symbols" and d: "distinct (leaves t)"
    and br: "2 \<le> card (set symbols) \<longrightarrow> (\<exists>w l r. t = Br w l r)"
    by blast
  have "adaptive_huffman_encoding symbols =
          (case encode_loop (table_of t) symbols '''' of
             Inl e \<Rightarrow> Inl e
           | Inr encoded_text \<Rightarrow> Inr (encoded_text, table_of t))"
    unfolding adaptive_huffman_encoding_def b
    using generate_code_table_ctree[OF d, of "\<lparr>root = None, code_table = []\<rparr>"]
    by (simp add: encode_def split: sum.splits)
  with s d br show ?thesis by blast
qed

lemma table_of_prefix_free:
  assumes "distinct (leaves t)"
  shows "prefix_free (table_of t)"
  unfolding prefix_free_def table_of_def
  using paths_prefix_free[OF assms] by fastforce

lemma encode_loop_total:
  "\<forall>s \<in> set symbols. Some s \<in> fst ` set table \<Longrightarrow>
   encode_loop table symbols acc = Inr (acc @ concat (map (code_of table) symbols))"
proof (induction symbols arbitrary: acc)
  case Nil
  show ?case by simp
next
  case (Cons s symbols)
  from Cons.prems have "Some s \<in> fst ` set table" by simp
  then obtain c where c: "map_of table (Some s) = Some c"
    by (metis map_of_eq_None_iff not_None_eq)
  with Cons show ?case by (simp add: code_of_def)
qed

text \<open>
  C5. For a symbol sequence with two distinct symbols or more, the code table derived
  from the built tree has one entry per distinct symbol and is prefix-free: the codeword
  of a symbol is no prefix of the codeword of another symbol.
\<close>

theorem code_table_prefix_free:
  assumes "2 \<le> card (set symbols)"
  shows "\<exists>encoded_text table.
           adaptive_huffman_encoding symbols = Inr (encoded_text, table)
           \<and> fst ` set table = Some ` set symbols
           \<and> distinct (map fst table)
           \<and> prefix_free table"
proof -
  from assms have ne: "symbols \<noteq> []" by auto
  from encoding_ctree[OF ne] obtain t where
    s: "set (leaves t) = set symbols" and d: "distinct (leaves t)"
    and e: "adaptive_huffman_encoding symbols =
              (case encode_loop (table_of t) symbols '''' of
                 Inl e \<Rightarrow> Inl e
               | Inr encoded_text \<Rightarrow> Inr (encoded_text, table_of t))"
    by blast
  have keys: "fst ` set (table_of t) = Some ` set symbols"
    using s map_fst_table_of[of t] by (metis set_map)
  then have "\<forall>x \<in> set symbols. Some x \<in> fst ` set (table_of t)" by simp
  from encode_loop_total[OF this, of "''''"] e
  have "adaptive_huffman_encoding symbols
          = Inr (concat (map (code_of (table_of t)) symbols), table_of t)"
    by simp
  moreover have "distinct (map fst (table_of t))"
    using d by (simp add: map_fst_table_of distinct_map)
  moreover note keys table_of_prefix_free[OF d]
  ultimately show ?thesis by blast
qed

lemma encoding_aaaabc:
  "adaptive_huffman_encoding ''aaaabc''
     = Inr (''10101010110'',
            [(Some CHR ''c'', ''0''), (Some CHR ''a'', ''10''), (Some CHR ''b'', ''11'')])"
  by (simp add: adaptive_huffman_encoding_def build_tree_def symbol_counts_def
      count_symbol_def leaf_nodes_def generate_code_table_def encode_def)

theorem code_table_prefix_free_witness:
  "2 \<le> card (set ''aaaabc'')
   \<and> adaptive_huffman_encoding ''aaaabc''
     = Inr (''10101010110'',
            [(Some CHR ''c'', ''0''), (Some CHR ''a'', ''10''), (Some CHR ''b'', ''11'')])
   \<and> prefix_free [(Some CHR ''c'', ''0''), (Some CHR ''a'', ''10''), (Some CHR ''b'', ''11'')]"
proof -
  let ?T = "[(Some CHR ''c'', ''0''), (Some CHR ''a'', ''10''), (Some CHR ''b'', ''11'')]"
  have c: "2 \<le> card (set ''aaaabc'')" by simp
  have e: "adaptive_huffman_encoding ''aaaabc'' = Inr (''10101010110'', ?T)"
    by (rule encoding_aaaabc)
  from code_table_prefix_free[OF c] e have "prefix_free ?T" by simp
  with c e show ?thesis by simp
qed

section \<open>Round trip\<close>

lemma prefix_freeD:
  assumes "prefix_free table" "(k1, c1) \<in> set table" "(k2, c2) \<in> set table" "prefix c1 c2"
  shows "k1 = k2"
proof (rule ccontr)
  assume "k1 \<noteq> k2"
  then have "fst (k1, c1) \<noteq> fst (k2, c2)" by simp
  with assms(1,2,3) have "\<not> prefix (snd (k1, c1)) (snd (k2, c2))"
    unfolding prefix_free_def by blast
  with assms(4) show False by simp
qed

lemma code_of_key:
  assumes "distinct (map fst table)" "(Some s, c) \<in> set table"
  shows "code_of table s = c"
proof -
  from assms have "map_of table (Some s) = Some c" by (rule map_of_is_SomeI)
  then show ?thesis by (simp add: code_of_def)
qed

lemma key_code_of:
  assumes "Some s \<in> fst ` set table"
  shows "(Some s, code_of table s) \<in> set table"
proof -
  from assms have "map_of table (Some s) \<noteq> None" by (simp add: map_of_eq_None_iff)
  then obtain c where c: "map_of table (Some s) = Some c" by blast
  then have "(Some s, c) \<in> set table" by (rule map_of_SomeD)
  with c show ?thesis by (simp add: code_of_def)
qed

lemma match_is_head:
  assumes d: "distinct (map fst table)" and pf: "prefix_free table"
    and kc: "(k, c) \<in> set table" and s: "Some s \<in> fst ` set table"
    and m: "prefix c (code_of table s @ rest)"
  shows "k = Some s \<and> c = code_of table s"
proof -
  have sc: "(Some s, code_of table s) \<in> set table" using s by (rule key_code_of)
  from m have "prefix c (code_of table s) \<or> prefix (code_of table s) c"
    by (auto simp: prefix_append)
  then have k: "k = Some s"
  proof
    assume "prefix c (code_of table s)"
    from prefix_freeD[OF pf kc sc this] show ?thesis .
  next
    assume "prefix (code_of table s) c"
    from prefix_freeD[OF pf sc kc this] show ?thesis by simp
  qed
  with d kc have "c = code_of table s"
    by (simp add: code_of_key)
  with k show ?thesis by simp
qed

lemma scan_table_encoded:
  assumes d: "distinct (map fst table)" and pf: "prefix_free table"
    and n: "\<forall>(k, c) \<in> set table. c \<noteq> []"
  shows "set items \<subseteq> set table \<Longrightarrow> \<forall>s \<in> set symbols. Some s \<in> fst ` set table \<Longrightarrow>
    \<exists>done rest. symbols = done @ rest
      \<and> scan_table items (concat (map (code_of table) symbols)) out
            = Inr (concat (map (code_of table) rest), out @ done)
      \<and> (symbols \<noteq> [] \<and> Some (hd symbols) \<in> fst ` set items \<longrightarrow> done \<noteq> [])"
proof (induction items arbitrary: symbols out)
  case Nil
  show ?case by (intro exI[of _ "[]"] exI[of _ symbols]) simp
next
  case (Cons item items)
  obtain k c where item: "item = (k, c)" by (cases item)
  from Cons.prems have kc: "(k, c) \<in> set table" and sub: "set items \<subseteq> set table"
    by (auto simp: item)
  from kc n have c: "c \<noteq> []" by auto
  let ?enc = "\<lambda>xs. concat (map (code_of table) xs)"
  show ?case
  proof (cases "prefix c (?enc symbols)")
    case True
    with c have "symbols \<noteq> []" by auto
    then obtain s symbols' where sy: "symbols = s # symbols'" by (cases symbols) auto
    from Cons.prems(2) sy have s: "Some s \<in> fst ` set table"
      and rest: "\<forall>x \<in> set symbols'. Some x \<in> fst ` set table" by auto
    from True have "prefix c (code_of table s @ ?enc symbols')" by (simp add: sy)
    from match_is_head[OF d pf kc s this] have k: "k = Some s" and cc: "c = code_of table s"
      by simp_all
    from Cons.IH[OF sub rest, of "out @ [s]"] obtain dn rs where
      split: "symbols' = dn @ rs"
      and sc: "scan_table items (?enc symbols') (out @ [s]) = Inr (?enc rs, (out @ [s]) @ dn)"
      by blast
    have "scan_table (item # items) (?enc symbols) out = Inr (?enc rs, out @ (s # dn))"
      using sc by (simp add: item sy k cc)
    moreover have "symbols = (s # dn) @ rs" by (simp add: sy split)
    ultimately show ?thesis by blast
  next
    case False
    from Cons.IH[OF sub Cons.prems(2), of out] obtain dn rs where
      split: "symbols = dn @ rs"
      and sc: "scan_table items (?enc symbols) out = Inr (?enc rs, out @ dn)"
      and pr: "symbols \<noteq> [] \<and> Some (hd symbols) \<in> fst ` set items \<longrightarrow> dn \<noteq> []"
      by blast
    have "scan_table (item # items) (?enc symbols) out = Inr (?enc rs, out @ dn)"
      using sc False by (simp add: item)
    moreover have "dn \<noteq> []"
      if ne: "symbols \<noteq> []" and hd: "Some (hd symbols) \<in> fst ` set (item # items)"
    proof -
      from ne obtain s symbols' where sy: "symbols = s # symbols'" by (cases symbols) auto
      have "k \<noteq> Some s"
      proof
        assume "k = Some s"
        with d kc have "c = code_of table s" by (simp add: code_of_key)
        with False show False by (simp add: sy)
      qed
      with hd have "Some (hd symbols) \<in> fst ` set items" by (auto simp: item sy)
      with pr ne show ?thesis by simp
    qed
    ultimately show ?thesis using split by blast
  qed
qed

lemma decode_loop_encoded:
  assumes d: "distinct (map fst table)" and pf: "prefix_free table"
    and n: "\<forall>(k, c) \<in> set table. c \<noteq> []"
  shows "\<forall>s \<in> set symbols. Some s \<in> fst ` set table \<Longrightarrow>
    decode_loop table (concat (map (code_of table) symbols)) out = Some (Inr (out @ symbols))"
proof (induction "length symbols" arbitrary: symbols out rule: less_induct)
  case less
  let ?enc = "\<lambda>xs. concat (map (code_of table) xs)"
  show ?case
  proof (cases symbols)
    case Nil
    then show ?thesis by (simp add: decode_loop.simps)
  next
    case (Cons s symbols')
    from less.prems Cons have s: "Some s \<in> fst ` set table" by simp
    then have "(Some s, code_of table s) \<in> set table" by (rule key_code_of)
    with n have "code_of table s \<noteq> []" by auto
    then have ne: "?enc symbols \<noteq> []" by (simp add: Cons)
    from scan_table_encoded[OF d pf n subset_refl less.prems, of out] obtain dn rs where
      split: "symbols = dn @ rs"
      and sc: "scan_table table (?enc symbols) out = Inr (?enc rs, out @ dn)"
      and pr': "symbols \<noteq> [] \<and> Some (hd symbols) \<in> fst ` set table \<longrightarrow> dn \<noteq> []"
      by blast
    from pr' s have pr: "dn \<noteq> []" by (simp add: Cons)
    from split pr have "length rs < length symbols" by simp
    moreover from less.prems split have "\<forall>s \<in> set rs. Some s \<in> fst ` set table" by simp
    ultimately have "decode_loop table (?enc rs) (out @ dn) = Some (Inr ((out @ dn) @ rs))"
      by (rule less.hyps)
    have "decode_loop table (?enc symbols) out =
            (case scan_table table (?enc symbols) out of
               Inl e \<Rightarrow> Some (Inl e)
             | Inr (m1, d1) \<Rightarrow> decode_loop table m1 d1)"
      using ne by (subst decode_loop.simps) (simp only: if_False)
    also have "\<dots> = decode_loop table (?enc rs) (out @ dn)"
      by (simp only: sc sum.case prod.case)
    also have "\<dots> = Some (Inr ((out @ dn) @ rs))" by fact
    finally show ?thesis by (simp add: split)
  qed
qed

text \<open>
  With two distinct symbols or more the tree has an internal root, every codeword is
  non-empty, and decoding the encoded text returns the input: the loop terminates and
  its result is the symbol sequence.
\<close>

lemma round_trip_two_symbols:
  assumes "2 \<le> card (set symbols)"
  shows "\<exists>encoded_text table.
           adaptive_huffman_encoding symbols = Inr (encoded_text, table)
           \<and> decode encoded_text table = Some (Inr symbols)"
proof -
  from assms have ne: "symbols \<noteq> []" by auto
  from encoding_ctree[OF ne] assms obtain t w l r where
    s: "set (leaves t) = set symbols" and d: "distinct (leaves t)"
    and br: "t = Br w l r"
    and e: "adaptive_huffman_encoding symbols =
              (case encode_loop (table_of t) symbols '''' of
                 Inl e \<Rightarrow> Inl e
               | Inr encoded_text \<Rightarrow> Inr (encoded_text, table_of t))"
    by blast
  let ?T = "table_of t"
  have keys: "fst ` set ?T = Some ` set symbols"
    using s map_fst_table_of[of t] by (metis set_map)
  then have all: "\<forall>x \<in> set symbols. Some x \<in> fst ` set ?T" by simp
  from encode_loop_total[OF this, of "''''"] e
  have enc: "adaptive_huffman_encoding symbols = Inr (concat (map (code_of ?T) symbols), ?T)"
    by simp
  have dk: "distinct (map fst ?T)"
    using d by (simp add: map_fst_table_of distinct_map)
  have nonempty: "\<forall>(k, c) \<in> set ?T. c \<noteq> []"
  proof -
    have "c \<noteq> []" if "(a, c) \<in> set (paths (Br w l r))" for a c
      using that by (rule paths_nonempty)
    then show ?thesis unfolding table_of_def br by fastforce
  qed
  from decode_loop_encoded[OF dk table_of_prefix_free[OF d] nonempty all, of "[]"]
  have "decode (concat (map (code_of ?T) symbols)) ?T = Some (Inr symbols)"
    by (simp add: decode_def)
  with enc show ?thesis by blast
qed

section \<open>One distinct symbol\<close>

lemma first_appearance_replicate: "first_appearance (replicate (Suc n) x) = [x]"
proof (induction n)
  case 0
  show ?case by (simp add: first_appearance_def)
next
  case (Suc n)
  have "replicate (Suc (Suc n)) x = replicate (Suc n) x @ [x]"
    by (simp add: replicate_append_same)
  then show ?case using Suc by (simp only: first_appearance_snoc) simp
qed

lemma symbol_counts_replicate:
  "symbol_counts (replicate (Suc n) x) = [(x, int (Suc n))]"
proof -
  have "count_list (replicate m x) x = m" for m by (induction m) simp_all
  then show ?thesis
    by (simp add: symbol_counts_eq counts_of_def first_appearance_replicate del: replicate_Suc)
qed

lemma encode_loop_empty_codeword:
  "encode_loop [(Some x, '''')] (replicate m x) acc = Inr acc"
  by (induction m) simp_all

text \<open>
  C1. The round trip \<open>decode(encode(S, table), table) = S\<close> is claimed for every
  non-empty \<open>S\<close>. It holds whenever \<open>S\<close> has two distinct symbols or more
  (\<open>round_trip_two_symbols\<close> above). For a sequence made of one symbol repeated, the code
  does this: the table maps the symbol to the empty codeword, the encoded text is empty,
  and decoding the empty text returns the empty sequence, which is not \<open>S\<close>.
\<close>

theorem single_symbol_round_trip_loses_input:
  "adaptive_huffman_encoding (replicate (Suc n) x) = Inr ('''', [(Some x, '''')])
   \<and> decode '''' [(Some x, '''')] = Some (Inr [])
   \<and> replicate (Suc n) x \<noteq> []"
proof -
  have "adaptive_huffman_encoding (replicate (Suc n) x) = Inr ('''', [(Some x, '''')])"
    unfolding adaptive_huffman_encoding_def build_tree_def symbol_counts_replicate
    by (simp add: leaf_nodes_def generate_code_table_def encode_def encode_loop_empty_codeword
        del: replicate_Suc)
  moreover have "decode '''' [(Some x, '''')] = Some (Inr [])"
    by (simp add: decode_def decode_loop.simps)
  ultimately show ?thesis by simp
qed

text \<open>
  C3. For \<open>S = [x, x, x]\<close> the claim has three parts. The tree is one leaf, as claimed.
  The codeword of \<open>x\<close> is claimed to be a non-empty fallback; in the code it is the empty
  string, the path from the root to itself. The round trip is claimed to hold; in the
  code the encoded text is empty and decodes to the empty sequence.
\<close>

theorem single_symbol_empty_codeword:
  "build_tree ''xxx'' \<lparr>root = None, code_table = []\<rparr>
     = Inr \<lparr>root = Some (Node (Some CHR ''x'') 3 None None), code_table = []\<rparr>
   \<and> generate_code_table \<lparr>root = Some (Node (Some CHR ''x'') 3 None None), code_table = []\<rparr>
     = Inr \<lparr>root = Some (Node (Some CHR ''x'') 3 None None),
            code_table = [(Some CHR ''x'', '''')]\<rparr>
   \<and> adaptive_huffman_encoding ''xxx'' = Inr ('''', [(Some CHR ''x'', '''')])
   \<and> decode '''' [(Some CHR ''x'', '''')] = Some (Inr '''')"
  by (simp add: adaptive_huffman_encoding_def build_tree_def symbol_counts_def
        count_symbol_def leaf_nodes_def generate_code_table_def encode_def
        decode_def decode_loop.simps)

section \<open>Decoding bits that are no encoding\<close>

text \<open>
  When a pass over the table leaves the message as it was, every later pass does the
  same: the loop returns nothing.
\<close>

lemma decode_loop_stuck:
  assumes "decode_loop table msg out = Some y"
  shows "msg = [] \<or> scan_table table msg out \<noteq> Inr (msg, out)"
proof (rule decode_loop.raw_induct
    [where P = "\<lambda>t m d y. m = [] \<or> scan_table t m d \<noteq> Inr (m, d)", OF _ assms])
  fix f :: "'a code_table \<Rightarrow> string \<Rightarrow> 'a list \<Rightarrow> (error + 'a list) option"
    and t m d r
  assume ih: "\<And>t m d r. f t m d = Some r \<Longrightarrow> m = [] \<or> scan_table t m d \<noteq> Inr (m, d)"
    and step: "(if m = [] then Some (Inr d)
                else case scan_table t m d of Inl e \<Rightarrow> Some (Inl e)
                     | Inr (m1, d1) \<Rightarrow> f t m1 d1) = Some r"
  show "m = [] \<or> scan_table t m d \<noteq> Inr (m, d)"
  proof (rule ccontr)
    assume "\<not> ?thesis"
    then have ne: "m \<noteq> []" and st: "scan_table t m d = Inr (m, d)"
      by auto
    from step ne st have "f t m d = Some r" by simp
    from ih[OF this] ne st show False by simp
  qed
qed

lemma scan_table_no_match:
  "\<forall>item \<in> set items. \<not> prefix (snd item) msg \<Longrightarrow> scan_table items msg out = Inr (msg, out)"
  by (induction items) auto

lemma decode_loop_diverges:
  assumes "msg \<noteq> []" and "scan_table table msg out = Inr (msg, out)"
  shows "decode_loop table msg out = None"
proof (cases "decode_loop table msg out")
  case None
  then show ?thesis .
next
  case (Some y)
  from decode_loop_stuck[OF this] assms show ?thesis by simp
qed

lemma decode_no_match_diverges:
  assumes "msg \<noteq> []" and "\<forall>item \<in> set table. \<not> prefix (snd item) msg"
  shows "decode msg table = None"
  unfolding decode_def
  using assms(1) scan_table_no_match[OF assms(2)] by (rule decode_loop_diverges)

lemma decode_loop_step:
  "msg \<noteq> [] \<Longrightarrow> scan_table table msg out = Inr (msg1, out1) \<Longrightarrow>
   decode_loop table msg out = decode_loop table msg1 out1"
  by (subst decode_loop.simps) simp

text \<open>
  C2. The claim: when the bits that remain are not empty and no codeword of the table is
  a prefix of them, \<open>decode\<close> fails with an error instead of looping for ever. In the code
  \<open>decode\<close> has no such check (\<open>decode_no_match_diverges\<close>). The text \<open>aaaabc\<close> is encoded
  into eleven bits; on the first nine of them, which end in the middle of a codeword,
  \<open>decode\<close> consumes four codewords and then never returns.
\<close>

theorem decode_truncated_never_returns:
  "adaptive_huffman_encoding ''aaaabc''
     = Inr (''10101010110'',
            [(Some CHR ''c'', ''0''), (Some CHR ''a'', ''10''), (Some CHR ''b'', ''11'')])
   \<and> decode ''101010101''
        [(Some CHR ''c'', ''0''), (Some CHR ''a'', ''10''), (Some CHR ''b'', ''11'')]
     = None"
proof -
  let ?T = "[(Some CHR ''c'', ''0''), (Some CHR ''a'', ''10''), (Some CHR ''b'', ''11'')]"
  have e: "adaptive_huffman_encoding ''aaaabc'' = Inr (''10101010110'', ?T)"
    by (rule encoding_aaaabc)
  have "decode_loop ?T ''101010101'' [] = decode_loop ?T ''1010101'' ''a''"
    by (rule decode_loop_step) simp_all
  also have "\<dots> = decode_loop ?T ''10101'' ''aa''"
    by (rule decode_loop_step) simp_all
  also have "\<dots> = decode_loop ?T ''101'' ''aaa''"
    by (rule decode_loop_step) simp_all
  also have "\<dots> = decode_loop ?T ''1'' ''aaaa''"
    by (rule decode_loop_step) simp_all
  also have "\<dots> = None"
    by (rule decode_loop_diverges) simp_all
  finally show ?thesis using e by (simp add: decode_def)
qed

section \<open>Determinism\<close>

text \<open>
  C9. Building the tree and deriving the table from the same symbol sequence gives the
  same tree and the same table on any two \<open>HuffmanTree\<close> objects, whatever they held
  before, and a second run on the object the first run left gives the same again.
\<close>

theorem build_and_derive_deterministic:
  "build_and_derive symbols self1 = build_and_derive symbols self2
   \<and> (case build_and_derive symbols self1 of Inl e \<Rightarrow> Inl e
       | Inr tree \<Rightarrow> build_and_derive symbols tree) = build_and_derive symbols self1"
  by (cases "merge_nodes (leaf_nodes (symbol_counts symbols))")
     (simp_all add: build_and_derive_def build_tree_def generate_code_table_def)

text \<open>
  C10. \<open>generate_code_table\<close> resets the table before it fills it: what the table held
  before has no effect on the result, and a second call gives what the first gave.
\<close>

theorem generate_code_table_idempotent:
  "generate_code_table (self\<lparr>code_table := stale\<rparr>) = generate_code_table self
   \<and> (case generate_code_table self of Inl e \<Rightarrow> Inl e
       | Inr tree \<Rightarrow> generate_code_table tree) = generate_code_table self"
  by (cases "root self") (simp_all add: generate_code_table_def)

section \<open>Image container\<close>

lemma format_08b_0: "format_08b 0 = ''00000000''"
  by (simp add: format_08b_def)

lemma format_08b_255: "format_08b 255 = ''11111111''"
  by (simp add: format_08b_def)

lemma length_cadena_bits: "length (concat (map format_08b binarios)) = 8 * length binarios"
  by (induction binarios) (simp_all add: format_08b_def)

lemma paddinf_of_multiple: "(length cadena_bits + paddinf_of cadena_bits) mod 7 = 0"
  unfolding paddinf_of_def by (simp add: mod_simps) presburger

lemma join_chars_length: "join_chars cadena_bits is = Inr cs \<Longrightarrow> length cs = length is"
  by (induction "is" arbitrary: cs) (auto split: sum.splits)

text \<open>For \<open>n\<close> bytes the encoder receives \<open>\<lceil>n / 7\<rceil>\<close> symbols.\<close>

lemma image_symbols_count:
  assumes "image_symbols binarios = Inr (symbols, paddinf)"
  shows "length symbols = (length binarios + 6) div 7
         \<and> paddinf = paddinf_of (concat (map format_08b binarios))"
  using assms
  by (auto simp: image_symbols_def Let_def range7_def split: sum.splits dest: join_chars_length)

text \<open>
  C7. The claim: the symbols handed to the encoder cover the whole padded bit string, so
  that \<open>n\<close> bytes with padding \<open>p\<close> give \<open>(8n + p) / 7\<close> symbols. In the code the groups
  start at the positions \<open>range(0, len(binarios), 7)\<close>, which stop at the number of
  bytes, not of bits: seven bytes are 56 bits with no padding, that is 8 groups, and the
  code produces one symbol.
\<close>

theorem image_symbols_seven_bytes:
  "image_symbols [0, 0, 0, 0, 0, 0, 0] = Inr ([0], 0)
   \<and> (8 * length [0, 0, 0, 0, 0, 0, 0 :: byte] + 0) div 7 = 8"
  by (simp add: image_symbols_def format_08b_0 range7_def paddinf_of_def int_base2_def chr_def)

lemma image_symbols_13:
  "image_symbols [255, 0, 0, 0, 0, 0, 0, 0, 0, 0, 0, 0, 0] = Inr ([127, 64], 1)"
  by (simp add: image_symbols_def format_08b_0 format_08b_255 range7_def upt_rec paddinf_of_def
      int_base2_def chr_def)

text \<open>
  C8. The recorded padding is \<open>7 - (bitlength mod 7)\<close>, as claimed: 13 bytes are 104
  bits and the padding is 1. The claim then has the bits decoded first and the padding
  bits dropped from the decoded stream. The code drops them from the encoded bits, before
  decoding: of the two encoded bits one is cut, and of the two symbols that the stored
  bits decode to, one comes back.
\<close>

theorem image_padding_stripped_before_decode:
  "compress_image w h ch [255, 0, 0, 0, 0, 0, 0, 0, 0, 0, 0, 0, 0]
     = Inr \<lparr>ic_table = [(Some 127, ''0''), (Some 64, ''1'')], ic_bits = [False, True],
            ic_width = w, ic_height = h, ic_channels = ch, ic_padding = 1\<rparr>
   \<and> paddinf_of (concat (map format_08b [255, 0, 0, 0, 0, 0, 0, 0, 0, 0, 0, 0, 0])) = 7 - 104 mod 7
   \<and> decode (to01 [False, True]) [(Some (127::nat), ''0''), (Some 64, ''1'')]
     = Some (Inr [127, 64])
   \<and> decompress_image
        \<lparr>ic_table = [(Some 127, ''0''), (Some 64, ''1'')], ic_bits = [False, True],
         ic_width = w, ic_height = h, ic_channels = ch, ic_padding = 1\<rparr>
     = Some (Inr [127])"
proof -
  have "compress_image w h ch [255, 0, 0, 0, 0, 0, 0, 0, 0, 0, 0, 0, 0]
     = Inr \<lparr>ic_table = [(Some 127, ''0''), (Some 64, ''1'')], ic_bits = [False, True],
            ic_width = w, ic_height = h, ic_channels = ch, ic_padding = 1\<rparr>"
    by (simp add: compress_image_def image_symbols_13 adaptive_huffman_encoding_def
        build_tree_def symbol_counts_def count_symbol_def leaf_nodes_def
        generate_code_table_def encode_def)
  moreover have "paddinf_of (concat (map format_08b [255, 0, 0, 0, 0, 0, 0, 0, 0, 0, 0, 0, 0]))
      = 7 - 104 mod 7"
    unfolding paddinf_of_def length_cadena_bits by simp
  moreover have "decode (to01 [False, True]) [(Some (127::nat), ''0''), (Some 64, ''1'')]
      = Some (Inr [127, 64])"
    by (simp add: to01_def decode_def decode_loop.simps)
  moreover have "decompress_image
        \<lparr>ic_table = [(Some 127, ''0''), (Some 64, ''1'')], ic_bits = [False, True],
         ic_width = w, ic_height = h, ic_channels = ch, ic_padding = 1\<rparr>
     = Some (Inr [127])"
    by (simp add: decompress_image_def to01_def decode_def decode_loop.simps)
  ultimately show ?thesis by simp
qed

end
